theory Spec2Isabelle
  imports Complex_Main "HOL-Library.Multiset"
begin

section \<open>Simulated annealing for the travelling salesperson problem (Task1b.py)\<close>

text \<open>
  Python floats are modelled as \<open>real\<close> numbers (rounding, infinities and NaN are
  left out; an operation that raises \<open>OverflowError\<close> on floats raises it in the model),
  Python lists as HOL lists and Python integers as \<open>int\<close>. A tour is a list of city
  indices; a city is a pair of coordinates.
\<close>

subsection \<open>Python exceptions and list slicing\<close>

datatype error = IndexError | ValueError | UnboundLocalError | OverflowError

text \<open>
  The bound \<open>k\<close> of a slice of a list of length \<open>n\<close>: a negative bound counts
  from the end, and every bound is clamped into \<open>[0, n]\<close>.
\<close>

definition slice_bound :: "nat \<Rightarrow> int \<Rightarrow> nat" where
  "slice_bound n k = (if k < 0 then nat (max 0 (int n + k)) else min n (nat k))"

text \<open>\<open>xs[lo:hi]\<close>; a bound that is left out is \<open>None\<close>.\<close>

definition py_slice :: "'a list \<Rightarrow> int option \<Rightarrow> int option \<Rightarrow> 'a list" where
  "py_slice xs lo hi =
     (let n = length xs;
          a = (case lo of None \<Rightarrow> 0 | Some k \<Rightarrow> slice_bound n k);
          b = (case hi of None \<Rightarrow> n | Some k \<Rightarrow> slice_bound n k)
      in take (b - a) (drop a xs))"

subsection \<open>Neighbourhood generation\<close>

definition generate_two_opt_neighbor :: "'a list \<Rightarrow> int \<Rightarrow> int \<Rightarrow> 'a list" where
  "generate_two_opt_neighbor tour segment_start segment_end =
     py_slice tour None (Some segment_start)
     @ rev (py_slice tour (Some segment_start) (Some (segment_end + 1)))
     @ py_slice tour (Some (segment_end + 1)) None"

text \<open>
  The same function on a store of list objects, where an address is a position in the
  store. Every slice, the reversal and both concatenations create a new list object;
  nothing assigns into an existing one.
\<close>

type_synonym 'a store = "'a list list"

definition alloc :: "'a store \<Rightarrow> 'a list \<Rightarrow> nat \<times> 'a store" where
  "alloc h xs = (length h, h @ [xs])"

definition generate_two_opt_neighbor_store ::
    "'a store \<Rightarrow> nat \<Rightarrow> int \<Rightarrow> int \<Rightarrow> nat \<times> 'a store" where
  "generate_two_opt_neighbor_store h tour segment_start segment_end =
     (let (a1, h1) = alloc h (py_slice (h ! tour) None (Some segment_start));
          (a2, h2) = alloc h1 (py_slice (h1 ! tour) (Some segment_start) (Some (segment_end + 1)));
          (a3, h3) = alloc h2 (rev (h2 ! a2));
          (a4, h4) = alloc h3 (h3 ! a1 @ h3 ! a3);
          (a5, h5) = alloc h4 (py_slice (h4 ! tour) (Some (segment_end + 1)) None);
          (new_tour, h6) = alloc h5 (h5 ! a4 @ h5 ! a5)
      in (new_tour, h6))"

subsection \<open>City management\<close>

type_synonym city = "real \<times> real"

definition distance_between :: "city \<Rightarrow> city \<Rightarrow> real" where
  "distance_between city_a city_b =
     (let dx = fst city_a - fst city_b;
          dy = snd city_a - snd city_b
      in sqrt (dx * dx + dy * dy))"

text \<open>\<open>xs[i]\<close>: a negative index counts from the end; out of range raises.\<close>

definition py_getitem :: "'a list \<Rightarrow> int \<Rightarrow> error + 'a" where
  "py_getitem xs i =
     (if 0 \<le> i \<and> i < int (length xs) then Inr (xs ! nat i)
      else if i < 0 \<and> - int (length xs) \<le> i then Inr (xs ! nat (int (length xs) + i))
      else Inl IndexError)"

text \<open>
  The loop of \<open>evaluate_tour_length\<close> over the positions still to visit. Both reads of
  \<open>tour\<close> are in range, since \<open>position\<close> and \<open>(position + 1) % tour_size\<close> are below
  \<open>tour_size\<close>; the reads of \<open>cities\<close> can raise.
\<close>

fun tour_length_loop ::
    "int list \<Rightarrow> city list \<Rightarrow> nat \<Rightarrow> nat list \<Rightarrow> real \<Rightarrow> error + real" where
  "tour_length_loop tour cities tour_size [] total_distance = Inr total_distance"
| "tour_length_loop tour cities tour_size (position # rest) total_distance =
     (let current_idx = tour ! position;
          next_idx = tour ! ((position + 1) mod tour_size)
      in case py_getitem cities current_idx of
           Inl e \<Rightarrow> Inl e
         | Inr city_a \<Rightarrow>
             (case py_getitem cities next_idx of
                Inl e \<Rightarrow> Inl e
              | Inr city_b \<Rightarrow>
                  tour_length_loop tour cities tour_size rest
                    (total_distance + distance_between city_a city_b)))"

definition evaluate_tour_length :: "int list \<Rightarrow> city list \<Rightarrow> error + real" where
  "evaluate_tour_length tour cities =
     (let tour_size = length tour
      in tour_length_loop tour cities tour_size [0..<tour_size] 0)"

text \<open>
  The specification's wording of the tour length: the sum over all positions \<open>i\<close> of the
  distance from the city at position \<open>i\<close> to the city at position \<open>(i + 1) mod N\<close>.
\<close>

definition cyclic_tour_length :: "int list \<Rightarrow> city list \<Rightarrow> real" where
  "cyclic_tour_length tour points =
     (\<Sum>i<length tour.
        distance_between (points ! nat (tour ! i))
          (points ! nat (tour ! ((i + 1) mod length tour))))"

subsection \<open>Float operations that raise\<close>

text \<open>
  The least magnitude that rounds beyond the largest float (a double of 53 bits):
  \<open>2 ^ 1024 - 2 ^ 970\<close>. A float power, and the conversion of an integer to a float,
  whose exact result reaches it raise \<open>OverflowError\<close>. A float product or difference
  beyond the range gives an infinity and raises nothing.
\<close>

definition float_overflow_bound :: real where
  "float_overflow_bound = 2 ^ 1024 - 2 ^ 970"

text \<open>\<open>x ** n\<close> for a float \<open>x\<close> and an integer \<open>n \<ge> 0\<close>.\<close>

definition py_float_pow :: "real \<Rightarrow> nat \<Rightarrow> error + real" where
  "py_float_pow x n =
     (if float_overflow_bound \<le> \<bar>x ^ n\<bar> then Inl OverflowError else Inr (x ^ n))"

text \<open>The integer operand of a float product, converted to a float.\<close>

definition py_float_of_nat :: "nat \<Rightarrow> error + real" where
  "py_float_of_nat n =
     (if float_overflow_bound \<le> real n then Inl OverflowError else Inr (real n))"

subsection \<open>Cooling schedules\<close>

datatype cooling_schedule =
    ExponentialSchedule real real
  | LinearSchedule real real

fun temperature_at_iteration :: "cooling_schedule \<Rightarrow> nat \<Rightarrow> error + real" where
  "temperature_at_iteration (ExponentialSchedule initial rate) iteration =
     (case py_float_pow rate iteration of
        Inl e \<Rightarrow> Inl e
      | Inr p \<Rightarrow> Inr (initial * p))"
| "temperature_at_iteration (LinearSchedule initial decrement) iteration =
     (case py_float_of_nat iteration of
        Inl e \<Rightarrow> Inl e
      | Inr k \<Rightarrow> Inr (max 0 (initial - (decrement * k))))"

subsection \<open>The random number generator\<close>

text \<open>
  The module \<open>random\<close> is a library outside the repository. Its three operations the
  solver calls are parameters, each taking the generator's state and returning the new
  one: \<open>shuffle\<close>, \<open>randint\<close> on a range that is not empty, and \<open>random\<close>.
\<close>

record 'g rng_ops =
  shuffle_fn :: "'g \<Rightarrow> int list \<Rightarrow> int list \<times> 'g"
  randint_fn :: "'g \<Rightarrow> int \<Rightarrow> int \<Rightarrow> int \<times> 'g"
  random_fn :: "'g \<Rightarrow> real \<times> 'g"

text \<open>
  What the library documents: \<open>shuffle\<close> permutes, \<open>randint a b\<close> is in \<open>[a, b]\<close> and
  \<open>random\<close> is in \<open>[0, 1)\<close>.
\<close>

definition rng_spec :: "'g rng_ops \<Rightarrow> bool" where
  "rng_spec ops \<longleftrightarrow>
     (\<forall>g xs. mset (fst (shuffle_fn ops g xs)) = mset xs) \<and>
     (\<forall>g a b. a \<le> b \<longrightarrow> a \<le> fst (randint_fn ops g a b) \<and> fst (randint_fn ops g a b) \<le> b) \<and>
     (\<forall>g. 0 \<le> fst (random_fn ops g) \<and> fst (random_fn ops g) < 1)"

text \<open>\<open>random.randint(a, b)\<close> raises \<open>ValueError\<close> on an empty range.\<close>

definition py_randint :: "'g rng_ops \<Rightarrow> 'g \<Rightarrow> int \<Rightarrow> int \<Rightarrow> error + (int \<times> 'g)" where
  "py_randint ops g a b = (if b < a then Inl ValueError else Inr (randint_fn ops g a b))"

text \<open>
  Two generators, or two states of one, that cannot be told apart by their draws:
  related states give equal results and related next states.
\<close>

definition rng_equiv :: "('g \<Rightarrow> 'h \<Rightarrow> bool) \<Rightarrow> 'g rng_ops \<Rightarrow> 'h rng_ops \<Rightarrow> bool" where
  "rng_equiv R ops1 ops2 \<longleftrightarrow>
     (\<forall>g h xs. R g h \<longrightarrow>
        fst (shuffle_fn ops1 g xs) = fst (shuffle_fn ops2 h xs) \<and>
        R (snd (shuffle_fn ops1 g xs)) (snd (shuffle_fn ops2 h xs))) \<and>
     (\<forall>g h a b. R g h \<longrightarrow>
        fst (randint_fn ops1 g a b) = fst (randint_fn ops2 h a b) \<and>
        R (snd (randint_fn ops1 g a b)) (snd (randint_fn ops2 h a b))) \<and>
     (\<forall>g h. R g h \<longrightarrow>
        fst (random_fn ops1 g) = fst (random_fn ops2 h) \<and>
        R (snd (random_fn ops1 g)) (snd (random_fn ops2 h)))"

text \<open>
  A generator to run the model on: its state is a tape of numbers, read one per draw;
  \<open>shuffle\<close> leaves the list as it is.
\<close>

definition tape_rng :: "nat list rng_ops" where
  "tape_rng =
     \<lparr> shuffle_fn = (\<lambda>g xs. (xs, g)),
       randint_fn = (\<lambda>g a b. case g of [] \<Rightarrow> (a, []) | x # g' \<Rightarrow> (a + int x mod (b - a + 1), g')),
       random_fn = (\<lambda>g. case g of [] \<Rightarrow> (0, []) | x # g' \<Rightarrow> (real (x mod 100) / 100, g')) \<rparr>"

subsection \<open>Acceptance criterion\<close>

text \<open>
  The draw is made only when the candidate is not an improvement. The argument of
  \<open>exp\<close> is never positive, so \<open>math.exp\<close> does not overflow.
\<close>

definition metropolis_acceptance ::
    "'g rng_ops \<Rightarrow> real \<Rightarrow> real \<Rightarrow> real \<Rightarrow> 'g \<Rightarrow> bool \<times> 'g" where
  "metropolis_acceptance ops current_cost candidate_cost temperature g =
     (if candidate_cost < current_cost then (True, g)
      else
        let energy_increase = candidate_cost - current_cost;
            acceptance_prob =
              (if temperature > 0 then exp (- energy_increase / temperature) else 0);
            (r, g') = random_fn ops g
        in (r < acceptance_prob, g'))"

subsection \<open>Main solver\<close>

record 'g solver_state =
  current_tour :: "int list"
  current_distance :: real
  best_tour :: "int list"
  best_distance :: real
  rng_state :: 'g

text \<open>One pass through the loop body either leaves the loop or goes on to the next iteration.\<close>

datatype 'a loop_step = Break | Next 'a

definition iteration_body ::
    "'g rng_ops \<Rightarrow> city list \<Rightarrow> nat \<Rightarrow> cooling_schedule \<Rightarrow> real \<Rightarrow> nat \<Rightarrow> 'g solver_state
       \<Rightarrow> error + 'g solver_state loop_step" where
  "iteration_body ops cities num_cities cooling_schedule min_temperature iteration st =
     (case temperature_at_iteration cooling_schedule iteration of
        Inl e \<Rightarrow> Inl e
      | Inr temperature \<Rightarrow>
          if temperature < min_temperature then Inr Break
          else
            case py_randint ops (rng_state st) 0 (int num_cities - 1) of
              Inl e \<Rightarrow> Inl e
            | Inr (r1, g1) \<Rightarrow>
                (case py_randint ops g1 0 (int num_cities - 1) of
                   Inl e \<Rightarrow> Inl e
                 | Inr (r2, g2) \<Rightarrow>
                     let (idx1, idx2) = (if r1 > r2 then (r2, r1) else (r1, r2))
                     in if idx1 = idx2 then Inr (Next (st\<lparr>rng_state := g2\<rparr>))
                        else
                          let neighbor_tour = generate_two_opt_neighbor (current_tour st) idx1 idx2
                          in case evaluate_tour_length neighbor_tour cities of
                               Inl e \<Rightarrow> Inl e
                             | Inr neighbor_distance \<Rightarrow>
                                 let (accepted, g3) =
                                       metropolis_acceptance ops (current_distance st)
                                         neighbor_distance temperature g2
                                 in if accepted then
                                      let st1 = st\<lparr>current_tour := neighbor_tour,
                                                   current_distance := neighbor_distance,
                                                   rng_state := g3\<rparr>
                                      in if current_distance st1 < best_distance st1
                                         then Inr (Next (st1\<lparr>best_tour := current_tour st1,
                                                            best_distance := current_distance st1\<rparr>))
                                         else Inr (Next st1)
                                    else Inr (Next (st\<lparr>rng_state := g3\<rparr>))))"

text \<open>
  The generator after the two index draws of one pass of the loop, each from
  \<open>[0, hi]\<close>.
\<close>

definition two_draws :: "'g rng_ops \<Rightarrow> int \<Rightarrow> 'g \<Rightarrow> 'g" where
  "two_draws ops hi g = snd (randint_fn ops (snd (randint_fn ops g 0 hi)) 0 hi)"

text \<open>
  The \<open>for\<close> loop over the iterations still to run. The second result is the binding of
  the loop variable \<open>iteration\<close> when the loop is left: \<open>None\<close> while it is unbound.
\<close>

fun anneal_loop ::
    "'g rng_ops \<Rightarrow> city list \<Rightarrow> nat \<Rightarrow> cooling_schedule \<Rightarrow> real \<Rightarrow> nat list \<Rightarrow> nat option
       \<Rightarrow> 'g solver_state \<Rightarrow> error + (nat option \<times> 'g solver_state)" where
  "anneal_loop ops cities num_cities cooling_schedule min_temperature [] bound st =
     Inr (bound, st)"
| "anneal_loop ops cities num_cities cooling_schedule min_temperature (iteration # rest) bound st =
     (case iteration_body ops cities num_cities cooling_schedule min_temperature iteration st of
        Inl e \<Rightarrow> Inl e
      | Inr Break \<Rightarrow> Inr (Some iteration, st)
      | Inr (Next st') \<Rightarrow>
          anneal_loop ops cities num_cities cooling_schedule min_temperature rest
            (Some iteration) st')"

text \<open>The states after each iteration that ran to its end, in order.\<close>

fun anneal_trace ::
    "'g rng_ops \<Rightarrow> city list \<Rightarrow> nat \<Rightarrow> cooling_schedule \<Rightarrow> real \<Rightarrow> nat list
       \<Rightarrow> 'g solver_state \<Rightarrow> 'g solver_state list" where
  "anneal_trace ops cities num_cities cooling_schedule min_temperature [] st = []"
| "anneal_trace ops cities num_cities cooling_schedule min_temperature (iteration # rest) st =
     (case iteration_body ops cities num_cities cooling_schedule min_temperature iteration st of
        Inr (Next st') \<Rightarrow>
          st' # anneal_trace ops cities num_cities cooling_schedule min_temperature rest st'
      | _ \<Rightarrow> [])"

text \<open>
  What \<open>solve\<close> leaves behind: the returned pair is \<open>(best_route, best_cost)\<close>, and
  \<open>iterations_performed\<close> is the field of that name.
\<close>

record 'g solve_result =
  best_route :: "int list"
  best_cost :: real
  iterations_performed :: nat
  final_rng :: 'g

definition initial_state :: "'g rng_ops \<Rightarrow> city list \<Rightarrow> 'g \<Rightarrow> error + 'g solver_state" where
  "initial_state ops cities g =
     (let num_cities = length cities;
          (shuffled_tour, g1) = shuffle_fn ops g (map int [0..<num_cities])
      in case evaluate_tour_length shuffled_tour cities of
           Inl e \<Rightarrow> Inl e
         | Inr shuffled_distance \<Rightarrow>
             Inr \<lparr> current_tour = shuffled_tour, current_distance = shuffled_distance,
                   best_tour = shuffled_tour, best_distance = shuffled_distance,
                   rng_state = g1 \<rparr>)"

definition solve ::
    "'g rng_ops \<Rightarrow> city list \<Rightarrow> cooling_schedule \<Rightarrow> int \<Rightarrow> real \<Rightarrow> 'g \<Rightarrow> error + 'g solve_result" where
  "solve ops cities cooling_schedule max_iterations min_temperature g =
     (case initial_state ops cities g of
        Inl e \<Rightarrow> Inl e
      | Inr st \<Rightarrow>
          (case anneal_loop ops cities (length cities) cooling_schedule min_temperature
                  [0..<nat max_iterations] None st of
             Inl e \<Rightarrow> Inl e
           | Inr (None, st') \<Rightarrow> Inl UnboundLocalError
           | Inr (Some iteration, st') \<Rightarrow>
               Inr \<lparr> best_route = best_tour st', best_cost = best_distance st',
                     iterations_performed = iteration + 1, final_rng = rng_state st' \<rparr>))"

text \<open>Four cities on a line, listed out of order, to run the solver on.\<close>

definition line_cities :: "city list" where
  "line_cities = [(0, 0), (2, 0), (1, 0), (3, 0)]"

text \<open>
  Two search states, and two outcomes of \<open>solve\<close>, that agree on everything but the
  generator, whose states are related by \<open>R\<close>.
\<close>

definition same_search_state ::
    "('g \<Rightarrow> 'h \<Rightarrow> bool) \<Rightarrow> 'g solver_state \<Rightarrow> 'h solver_state \<Rightarrow> bool" where
  "same_search_state R s t \<longleftrightarrow>
     current_tour s = current_tour t \<and> current_distance s = current_distance t \<and>
     best_tour s = best_tour t \<and> best_distance s = best_distance t \<and>
     R (rng_state s) (rng_state t)"

definition same_outcome ::
    "('g \<Rightarrow> 'h \<Rightarrow> bool) \<Rightarrow> error + 'g solve_result \<Rightarrow> error + 'h solve_result \<Rightarrow> bool" where
  "same_outcome R a b =
     (case a of
        Inl e \<Rightarrow> b = Inl e
      | Inr r \<Rightarrow>
          (case b of
             Inl e \<Rightarrow> False
           | Inr r' \<Rightarrow>
               best_route r = best_route r' \<and> best_cost r = best_cost r' \<and>
               iterations_performed r = iterations_performed r' \<and>
               R (final_rng r) (final_rng r')))"

section \<open>The tape generator meets the library's contract\<close>

lemma tape_rng_simps:
  "shuffle_fn tape_rng g xs = (xs, g)"
  "randint_fn tape_rng [] a b = (a, [])"
  "randint_fn tape_rng (x # g) a b = (a + int x mod (b - a + 1), g)"
  "random_fn tape_rng [] = (0, [])"
  "random_fn tape_rng (x # g) = (real (x mod 100) / 100, g)"
  by (simp_all add: tape_rng_def)

lemma tape_rng_spec: "rng_spec tape_rng"
  unfolding rng_spec_def
proof (intro conjI allI impI)
  fix g :: "nat list" and xs
  show "mset (fst (shuffle_fn tape_rng g xs)) = mset xs" by (simp add: tape_rng_simps)
next
  fix g :: "nat list" and a b :: int
  assume ab: "a \<le> b"
  show "a \<le> fst (randint_fn tape_rng g a b)"
    using ab by (cases g) (simp_all add: tape_rng_simps)
  show "fst (randint_fn tape_rng g a b) \<le> b"
  proof (cases g)
    case Nil
    then show ?thesis using ab by (simp add: tape_rng_simps)
  next
    case (Cons x g')
    have "int x mod (b - a + 1) < b - a + 1" using ab by (intro pos_mod_bound) simp
    then show ?thesis using Cons by (simp add: tape_rng_simps)
  qed
next
  fix g :: "nat list"
  show "0 \<le> fst (random_fn tape_rng g)" by (cases g) (simp_all add: tape_rng_simps)
  show "fst (random_fn tape_rng g) < 1"
  proof (cases g)
    case Nil
    then show ?thesis by (simp add: tape_rng_simps)
  next
    case (Cons x g')
    have "x mod 100 < 100" by simp
    then have "real (x mod 100) < 100" by (metis of_nat_less_iff of_nat_numeral)
    then show ?thesis using Cons by (simp add: tape_rng_simps)
  qed
qed
section \<open>Properties of the 2-opt move\<close>

lemma two_opt_in_range:
  assumes "i < j" "j < length tour"
  shows "generate_two_opt_neighbor tour (int i) (int j) =
         take i tour @ rev (take (j + 1 - i) (drop i tour)) @ drop (j + 1) tour"
  using assms by (simp add: generate_two_opt_neighbor_def py_slice_def slice_bound_def min_def nat_add_distrib Let_def)

lemma two_opt_length:
  assumes "i < j" "j < length tour"
  shows "length (generate_two_opt_neighbor tour (int i) (int j)) = length tour"
  using assms by (simp add: two_opt_in_range)

lemma two_opt_nth:
  assumes "i < j" "j < length tour" "k < length tour"
  shows "generate_two_opt_neighbor tour (int i) (int j) ! k =
         (if i \<le> k \<and> k \<le> j then tour ! (i + j - k) else tour ! k)"
proof -
  let ?mid = "take (j + 1 - i) (drop i tour)"
  have eq: "generate_two_opt_neighbor tour (int i) (int j) =
         take i tour @ rev ?mid @ drop (j + 1) tour"
    using assms by (simp add: two_opt_in_range)
  have len_pre: "length (take i tour) = i" using assms by simp
  have len_mid: "length (rev ?mid) = j + 1 - i" using assms by simp
  consider (pre) "k < i" | (mid) "i \<le> k" "k \<le> j" | (post) "j < k" by linarith
  then show ?thesis
  proof cases
    case pre
    then show ?thesis using assms by (simp add: eq nth_append)
  next
    case mid
    have km: "k - i < length ?mid" using mid assms by simp
    have "(take i tour @ rev ?mid @ drop (j + 1) tour) ! k = (rev ?mid @ drop (j + 1) tour) ! (k - i)"
      using mid len_pre by (simp add: nth_append)
    also have "\<dots> = rev ?mid ! (k - i)"
      using km by (simp add: nth_append)
    also have "\<dots> = ?mid ! (length ?mid - Suc (k - i))"
      using km by (simp add: rev_nth)
    also have "length ?mid - Suc (k - i) = j - k" using mid assms by simp
    also have "?mid ! (j - k) = tour ! (i + (j - k))" using mid assms by simp
    also have "i + (j - k) = i + j - k" using mid by simp
    finally show ?thesis using mid by (simp add: eq)
  next
    case post
    have "(take i tour @ rev ?mid @ drop (j + 1) tour) ! k = (rev ?mid @ drop (j + 1) tour) ! (k - i)"
      using post assms len_pre by (simp add: nth_append)
    also have "\<dots> = drop (j + 1) tour ! (k - i - (j + 1 - i))"
    proof -
      have "\<not> k - i < length (rev ?mid)" using post assms by simp
      then have "(rev ?mid @ drop (j + 1) tour) ! (k - i) =
                 drop (j + 1) tour ! (k - i - length (rev ?mid))"
        by (simp only: nth_append if_False)
      then show ?thesis by (simp only: len_mid)
    qed
    also have "\<dots> = tour ! k" using post assms by simp
    finally show ?thesis using post by (simp add: eq)
  qed
qed

lemma two_opt_mset:
  assumes "i < j" "j < length tour"
  shows "mset (generate_two_opt_neighbor tour (int i) (int j)) = mset tour"
proof -
  have "tour = take i tour @ take (j + 1 - i) (drop i tour) @ drop (j + 1) tour"
    using assms
    by (metis Suc_eq_plus1 add_diff_inverse_nat append_take_drop_id drop_drop less_Suc_eq not_less_eq add.commute)
  then have "mset tour = mset (take i tour) + mset (take (j + 1 - i) (drop i tour)) + mset (drop (j + 1) tour)"
    by (metis mset_append add.assoc)
  then show ?thesis using assms by (simp add: two_opt_in_range)
qed

lemma two_opt_involution:
  assumes "i < j" "j < length tour"
  shows "generate_two_opt_neighbor (generate_two_opt_neighbor tour (int i) (int j)) (int i) (int j) = tour"
proof -
  let ?t = "generate_two_opt_neighbor tour (int i) (int j)"
  have len: "length ?t = length tour" using assms by (rule two_opt_length)
  show ?thesis
  proof (rule nth_equalityI)
    show "length (generate_two_opt_neighbor ?t (int i) (int j)) = length tour"
      using assms len by (simp add: two_opt_length)
  next
    fix k assume "k < length (generate_two_opt_neighbor ?t (int i) (int j))"
    then have k: "k < length tour" using assms len by (simp add: two_opt_length)
    have step: "generate_two_opt_neighbor ?t (int i) (int j) ! k =
          (if i \<le> k \<and> k \<le> j then ?t ! (i + j - k) else ?t ! k)"
      using assms k len by (simp add: two_opt_nth)
    show "generate_two_opt_neighbor ?t (int i) (int j) ! k = tour ! k"
    proof (cases "i \<le> k \<and> k \<le> j")
      case True
      then have b: "i + j - k < length tour" "i \<le> i + j - k" "i + j - k \<le> j"
        using assms by auto
      have "?t ! (i + j - k) = tour ! (i + j - (i + j - k))"
        using assms b by (simp add: two_opt_nth)
      also have "i + j - (i + j - k) = k" using True by simp
      finally show ?thesis using step True by simp
    next
      case False
      have "?t ! k = (if i \<le> k \<and> k \<le> j then tour ! (i + j - k) else tour ! k)"
        using assms k by (rule two_opt_nth)
      then have "?t ! k = tour ! k" using False by simp
      then show ?thesis using step False by simp
    qed
  qed
qed

lemma two_opt_store:
  assumes "tour < length h"
  shows "generate_two_opt_neighbor_store h tour s e = (r, h') \<Longrightarrow>
     h' ! tour = h ! tour \<and> length h \<le> r \<and> r < length h' \<and> take (length h) h' = h \<and> h' ! r = generate_two_opt_neighbor (h ! tour) s e"
  using assms
  by (auto simp add: generate_two_opt_neighbor_store_def alloc_def nth_append generate_two_opt_neighbor_def Let_def)


text \<open>
  C2: for cut points \<open>0 \<le> i < j < N\<close> the 2-opt move returns the tour with the
  positions \<open>i..j\<close> reversed and every other position as it was, of the same length;
  on the store, the result is a new list object and the object of the input tour (and
  every other object) is as before; and \<open>[0,1,2,3,4]\<close> with cut points 1 and 3 becomes
  \<open>[0,3,2,1,4]\<close>.
\<close>

theorem two_opt_reverses_segment:
  assumes "0 \<le> i" and "i < j" and "j < int (length tour)"
  shows "generate_two_opt_neighbor tour i j =
           take (nat i) tour @ rev (take (nat (j - i + 1)) (drop (nat i) tour))
             @ drop (nat (j + 1)) tour
         \<and> length (generate_two_opt_neighbor tour i j) = length tour
         \<and> (\<forall>k<length tour.
               generate_two_opt_neighbor tour i j ! k =
                 (if nat i \<le> k \<and> k \<le> nat j then tour ! (nat i + nat j - k) else tour ! k))
         \<and> (\<forall>h a. a < length h \<and> h ! a = tour \<longrightarrow>
               (let (r, h') = generate_two_opt_neighbor_store h a i j
                in r \<noteq> a \<and> h' ! a = tour \<and> take (length h) h' = h
                   \<and> h' ! r = generate_two_opt_neighbor tour i j))
         \<and> generate_two_opt_neighbor [0, 1, 2, 3, 4 :: int] 1 3 = [0, 3, 2, 1, 4]"
proof -
  have ij: "nat i < nat j" "nat j < length tour" "int (nat i) = i" "int (nat j) = j"
    using assms by auto
  have a: "generate_two_opt_neighbor tour i j =
           take (nat i) tour @ rev (take (nat (j - i + 1)) (drop (nat i) tour))
             @ drop (nat (j + 1)) tour"
  proof -
    have "nat j + 1 - nat i = nat (j - i + 1)" "nat j + 1 = nat (j + 1)"
      using assms by auto
    then show ?thesis
      using two_opt_in_range [OF ij(1) ij(2)] ij(3,4) by simp
  qed
  have b: "length (generate_two_opt_neighbor tour i j) = length tour"
    using two_opt_length [OF ij(1) ij(2)] ij(3,4) by simp
  have c: "\<forall>k<length tour.
               generate_two_opt_neighbor tour i j ! k =
                 (if nat i \<le> k \<and> k \<le> nat j then tour ! (nat i + nat j - k) else tour ! k)"
    using two_opt_nth [OF ij(1) ij(2)] ij(3,4) by simp
  have d: "\<forall>h a. a < length h \<and> h ! a = tour \<longrightarrow>
               (let (r, h') = generate_two_opt_neighbor_store h a i j
                in r \<noteq> a \<and> h' ! a = tour \<and> take (length h) h' = h
                   \<and> h' ! r = generate_two_opt_neighbor tour i j)"
  proof (intro allI impI)
    fix h :: "'a store" and a
    assume ha: "a < length h \<and> h ! a = tour"
    obtain r h' where rh: "generate_two_opt_neighbor_store h a i j = (r, h')"
      by (cases "generate_two_opt_neighbor_store h a i j")
    from ha have "a < length h" by simp
    from two_opt_store [OF this rh] ha
    show "let (r, h') = generate_two_opt_neighbor_store h a i j
          in r \<noteq> a \<and> h' ! a = tour \<and> take (length h) h' = h
             \<and> h' ! r = generate_two_opt_neighbor tour i j"
      by (auto simp add: rh)
  qed
  have e: "generate_two_opt_neighbor [0, 1, 2, 3, 4 :: int] 1 3 = [0, 3, 2, 1, 4]"
    by (simp add: generate_two_opt_neighbor_def py_slice_def slice_bound_def)
  from a b c d e show ?thesis by blast
qed

theorem two_opt_reverses_segment_witness:
  "(0::int) \<le> 1 \<and> (1::int) < 3 \<and> 3 < int (length [10, 11, 12, 13, 14 :: int])
   \<and> generate_two_opt_neighbor [10, 11, 12, 13, 14 :: int] 1 3 = [10, 13, 12, 11, 14]
   \<and> length (generate_two_opt_neighbor [10, 11, 12, 13, 14 :: int] 1 3) = 5"
  using two_opt_reverses_segment [of 1 3 "[10, 11, 12, 13, 14 :: int]"] by simp

text \<open>
  C3: the 2-opt move of a permutation of \<open>[0, N)\<close> at cut points \<open>0 \<le> i < j < N\<close> is a
  permutation of \<open>[0, N)\<close>: the same multiset of indices, the same length, no index
  twice and none missing.
\<close>

theorem two_opt_permutation:
  assumes "mset tour = mset (map int [0..<N])" and "0 \<le> i" and "i < j" and "j < int N"
  shows "mset (generate_two_opt_neighbor tour i j) = mset (map int [0..<N])
         \<and> mset (generate_two_opt_neighbor tour i j) = mset tour
         \<and> length (generate_two_opt_neighbor tour i j) = N
         \<and> distinct (generate_two_opt_neighbor tour i j)
         \<and> set (generate_two_opt_neighbor tour i j) = int ` {0..<N}"
proof -
  have len: "length tour = N"
    using assms(1) by (metis length_map length_upt mset_eq_length minus_nat.diff_0)
  have ij: "nat i < nat j" "nat j < length tour" "int (nat i) = i" "int (nat j) = j"
    using assms len by auto
  have m: "mset (generate_two_opt_neighbor tour i j) = mset tour"
    using two_opt_mset [OF ij(1) ij(2)] ij(3,4) by simp
  have d: "distinct (map int [0..<N])" by (simp add: distinct_map)
  have "distinct (generate_two_opt_neighbor tour i j)"
    using m assms(1) d by (metis mset_eq_imp_distinct_iff)
  moreover have "set (generate_two_opt_neighbor tour i j) = int ` {0..<N}"
    using m assms(1) by (metis mset_eq_setD set_map set_upt)
  moreover have "length (generate_two_opt_neighbor tour i j) = N"
    using m len by (metis mset_eq_length)
  ultimately show ?thesis using m assms(1) by simp
qed

theorem two_opt_permutation_witness:
  "mset [2, 0, 3, 1 :: int] = mset (map int [0..<4]) \<and> (0::int) \<le> 0 \<and> (0::int) < 2 \<and> (2::int) < int 4
   \<and> mset (generate_two_opt_neighbor [2, 0, 3, 1 :: int] 0 2) = mset (map int [0..<4])
   \<and> distinct (generate_two_opt_neighbor [2, 0, 3, 1 :: int] 0 2)"
proof -
  have h: "mset [2, 0, 3, 1 :: int] = mset (map int [0..<4])"
    by (simp add: upt_rec)
  show ?thesis
    using h two_opt_permutation [OF h, of 0 2] by simp
qed

text \<open>
  C10: for cut points \<open>0 \<le> i < j < len(tour)\<close>, applying the 2-opt move twice with the
  same cut points gives the tour back.
\<close>

theorem two_opt_twice:
  assumes "0 \<le> i" and "i < j" and "j < int (length tour)"
  shows "generate_two_opt_neighbor (generate_two_opt_neighbor tour i j) i j = tour"
proof -
  have ij: "nat i < nat j" "nat j < length tour" "int (nat i) = i" "int (nat j) = j"
    using assms by auto
  show ?thesis
    using two_opt_involution [OF ij(1) ij(2)] ij(3,4) by simp
qed

theorem two_opt_twice_witness:
  "(0::int) \<le> 1 \<and> (1::int) < 3 \<and> 3 < int (length [0, 1, 2, 3, 4 :: int])
   \<and> generate_two_opt_neighbor (generate_two_opt_neighbor [0, 1, 2, 3, 4 :: int] 1 3) 1 3
       = [0, 1, 2, 3, 4]"
  using two_opt_twice [of 1 3 "[0, 1, 2, 3, 4 :: int]"] by simp
text \<open>
  C7, as stated, fails: with cut points that are mis-ordered, beyond the end or negative
  the 2-opt move returns a list.
\<close>

theorem two_opt_no_range_check_counterexample:
  "generate_two_opt_neighbor [0, 1, 2, 3, 4 :: int] 3 1 = [0, 1, 2, 2, 3, 4]
   \<and> generate_two_opt_neighbor [0, 1, 2, 3, 4 :: int] 1 7 = [0, 4, 3, 2, 1]
   \<and> generate_two_opt_neighbor [0, 1, 2, 3, 4 :: int] (- 4) 3 = [0, 3, 2, 1, 4]"
  by (simp add: generate_two_opt_neighbor_def py_slice_def slice_bound_def)

text \<open>
  C7, amended: the 2-opt move checks nothing and returns what Python's slices give.
  With \<open>i = j\<close> in range it returns the tour as it is; with \<open>0 \<le> j < i \<le> N\<close> it returns
  the first \<open>i\<close> elements followed by the elements from \<open>j + 1\<close> on, of length
  \<open>N + (i - j - 1)\<close>; with \<open>0 \<le> i \<le> N \<le> j\<close> it returns the first \<open>i\<close> elements followed by
  the rest reversed; a negative \<open>i\<close> from \<open>- N\<close> on counts from the end.
\<close>

theorem two_opt_unchecked:
  "(0 \<le> i \<and> i = j \<and> j < int (length tour) \<longrightarrow> generate_two_opt_neighbor tour i j = tour)
   \<and> (0 \<le> j \<and> j < i \<and> i \<le> int (length tour) \<longrightarrow>
        generate_two_opt_neighbor tour i j = take (nat i) tour @ drop (nat (j + 1)) tour
        \<and> int (length (generate_two_opt_neighbor tour i j)) = int (length tour) + (i - j - 1))
   \<and> (0 \<le> i \<and> i \<le> int (length tour) \<and> int (length tour) \<le> j \<longrightarrow>
        generate_two_opt_neighbor tour i j = take (nat i) tour @ rev (drop (nat i) tour))
   \<and> (- int (length tour) \<le> i \<and> i < 0 \<longrightarrow>
        generate_two_opt_neighbor tour i j = generate_two_opt_neighbor tour (i + int (length tour)) j)"
proof (intro conjI impI)
  assume h: "0 \<le> i \<and> i = j \<and> j < int (length tour)"
  let ?n = "nat j"
  from h have hi: "0 \<le> j" "j < int (length tour)" "i = j" by auto
  have n: "?n < length tour" using hi(1,2) by linarith
  have "generate_two_opt_neighbor tour i j =
          take ?n tour @ rev (take (Suc ?n - ?n) (drop ?n tour)) @ drop (Suc ?n) tour"
    using hi n
    by (simp add: generate_two_opt_neighbor_def py_slice_def slice_bound_def Let_def min_def
          nat_add_distrib)
  also have "take (Suc ?n - ?n) (drop ?n tour) = [tour ! ?n]"
    using n by (simp add: take_Suc_conv_app_nth)
  also have "take ?n tour @ rev [tour ! ?n] @ drop (Suc ?n) tour = tour"
    using n by (simp add: id_take_nth_drop [symmetric])
  finally show "generate_two_opt_neighbor tour i j = tour" .
next
  assume h: "0 \<le> j \<and> j < i \<and> i \<le> int (length tour)"
  then have n: "nat (j + 1) \<le> nat i" "nat i \<le> length tour" "\<not> i < 0" "\<not> j + 1 < 0"
    by linarith+
  then have b: "slice_bound (length tour) i = nat i"
       "slice_bound (length tour) (j + 1) = nat (j + 1)"
    by (simp_all add: slice_bound_def)
  show eq: "generate_two_opt_neighbor tour i j = take (nat i) tour @ drop (nat (j + 1)) tour"
    using n(1) by (simp add: generate_two_opt_neighbor_def py_slice_def b)
  show "int (length (generate_two_opt_neighbor tour i j)) = int (length tour) + (i - j - 1)"
    using h n by (simp add: eq)
next
  assume h: "0 \<le> i \<and> i \<le> int (length tour) \<and> int (length tour) \<le> j"
  then have n: "nat i \<le> length tour" "length tour \<le> nat (j + 1)" "\<not> i < 0" "\<not> j + 1 < 0"
    by linarith+
  then have b: "slice_bound (length tour) i = nat i"
       "slice_bound (length tour) (j + 1) = length tour"
    by (simp_all add: slice_bound_def)
  show "generate_two_opt_neighbor tour i j = take (nat i) tour @ rev (drop (nat i) tour)"
    by (simp add: generate_two_opt_neighbor_def py_slice_def b)
next
  assume h: "- int (length tour) \<le> i \<and> i < 0"
  then have "nat (max 0 (int (length tour) + i)) = min (length tour) (nat (i + int (length tour)))"
    by linarith
  then have "slice_bound (length tour) i = slice_bound (length tour) (i + int (length tour))"
    using h by (simp add: slice_bound_def)
  then show "generate_two_opt_neighbor tour i j = generate_two_opt_neighbor tour (i + int (length tour)) j"
    by (simp add: generate_two_opt_neighbor_def py_slice_def)
qed

theorem two_opt_unchecked_witness:
  "(0::int) \<le> 1 \<and> (1::int) < 3 \<and> (3::int) \<le> int (length [0, 1, 2, 3, 4 :: int])
   \<and> generate_two_opt_neighbor [0, 1, 2, 3, 4 :: int] 3 1 = [0, 1, 2, 2, 3, 4]
   \<and> int (length (generate_two_opt_neighbor [0, 1, 2, 3, 4 :: int] 3 1)) = 6"
  using two_opt_unchecked [of 3 1 "[0, 1, 2, 3, 4 :: int]"] by simp
section \<open>The acceptance rule\<close>

text \<open>
  C1: with the draw \<open>r\<close> in \<open>[0, 1)\<close>, the acceptance rule returns true whenever the
  candidate cost is below the current cost, whatever the temperature and the draw;
  otherwise, at a positive temperature \<open>T\<close>, it returns whether
  \<open>r < exp (- (c' - c) / T)\<close>; otherwise it returns false.
\<close>

theorem metropolis_acceptance_rule:
  assumes "0 \<le> fst (random_fn ops g)" and "fst (random_fn ops g) < 1"
  shows "fst (metropolis_acceptance ops c c' T g) =
           (if c' < c then True
            else if T > 0 then fst (random_fn ops g) < exp (- (c' - c) / T)
            else False)"
  using assms
  by (simp add: metropolis_acceptance_def Let_def split_beta)

theorem metropolis_acceptance_rule_witness:
  "0 \<le> fst (random_fn tape_rng [0]) \<and> fst (random_fn tape_rng [0]) < 1
   \<and> fst (metropolis_acceptance tape_rng 5 10 0 [0]) = False
   \<and> fst (metropolis_acceptance tape_rng 10 5 0 [0]) = True"
  using metropolis_acceptance_rule [of tape_rng "[0]" 10 5 0]
        metropolis_acceptance_rule [of tape_rng "[0]" 5 10 0]
  by (simp add: tape_rng_simps)
section \<open>The cooling schedules\<close>

lemma float_overflow_bound_large: "2 ^ 1023 \<le> float_overflow_bound"
  by (simp add: float_overflow_bound_def)

lemma float_overflow_bound_million: "1000000 < float_overflow_bound"
proof -
  have "(1000000 :: real) < 2 ^ 20" by simp
  also have "(2 :: real) ^ 20 \<le> 2 ^ 1023" by (rule power_increasing) simp_all
  finally show ?thesis using float_overflow_bound_large by simp
qed


lemma py_float_of_nat_small:
  assumes "n \<le> 1000000"
  shows "py_float_of_nat n = Inr (real n)"
proof -
  have "real n \<le> 1000000" using assms by simp
  then have "real n < float_overflow_bound" using float_overflow_bound_million by simp
  then show ?thesis by (simp add: py_float_of_nat_def)
qed

lemma linear_temperature_small:
  assumes "n \<le> 1000000"
  shows "temperature_at_iteration (LinearSchedule initial decrement) n =
           Inr (max 0 (initial - decrement * real n))"
  by (simp add: py_float_of_nat_small [OF assms])



section \<open>The tour length\<close>

lemma py_getitem_in_range:
  "0 \<le> i \<Longrightarrow> i < int (length xs) \<Longrightarrow> py_getitem xs i = Inr (xs ! nat i)"
  by (simp add: py_getitem_def)

lemma tour_length_loop_sum:
  assumes "\<forall>x\<in>set tour. 0 \<le> x \<and> x < int (length cities)"
      and "\<forall>p\<in>set ps. p < length tour"
  shows "tour_length_loop tour cities (length tour) ps acc =
           Inr (acc + (\<Sum>p\<leftarrow>ps.
                  distance_between (cities ! nat (tour ! p))
                    (cities ! nat (tour ! ((p + 1) mod length tour)))))"
  using assms(2)
proof (induction ps arbitrary: acc)
  case Nil
  then show ?case by simp
next
  case (Cons p ps)
  then have p: "p < length tour" by simp
  then have q: "(p + 1) mod length tour < length tour"
    by (intro mod_less_divisor) auto
  have a: "py_getitem cities (tour ! p) = Inr (cities ! nat (tour ! p))"
    using assms(1) p by (intro py_getitem_in_range) (simp_all add: nth_mem del: Suc_eq_plus1)
  have b: "py_getitem cities (tour ! ((p + 1) mod length tour)) =
           Inr (cities ! nat (tour ! ((p + 1) mod length tour)))"
    using assms(1) q by (intro py_getitem_in_range) (meson nth_mem)+
  from Cons have "\<forall>p\<in>set ps. p < length tour" by simp
  from Cons.IH [OF this] show ?case
    by (simp add: a b Let_def del: Suc_eq_plus1 One_nat_def)
qed

lemma evaluate_tour_length_sum:
  assumes "\<forall>x\<in>set tour. 0 \<le> x \<and> x < int (length cities)"
  shows "evaluate_tour_length tour cities = Inr (cyclic_tour_length tour cities)"
proof -
  have "\<forall>p\<in>set [0..<length tour]. p < length tour" by simp
  from tour_length_loop_sum [OF assms this, of 0]
  show ?thesis
    by (simp add: evaluate_tour_length_def cyclic_tour_length_def Let_def
          interv_sum_list_conv_sum_set_nat atLeast0LessThan del: Suc_eq_plus1 One_nat_def)
qed

lemma distance_between_self: "distance_between c c = 0"
  by (simp add: distance_between_def)

lemma cyclic_tour_length_single: "cyclic_tour_length [a] cities = 0"
  by (simp add: cyclic_tour_length_def distance_between_self)

text \<open>
  C8, as stated, fails on its last part: on a tour of length 0 the loop body never runs
  and the function returns 0.0, with no error.
\<close>

theorem evaluate_tour_length_empty_counterexample:
  "evaluate_tour_length [] [] = Inr 0 \<and> evaluate_tour_length [] [(0, 0), (3, 4)] = Inr 0"
  by (simp add: evaluate_tour_length_def)

text \<open>
  C8, amended: for a tour whose indices are all within the point list,
  \<open>evaluate_tour_length\<close> returns the cyclic sum of the distances between the points at
  consecutive tour positions, which is 0 for a tour of length 1; for a tour of length 0
  it returns 0.0 and signals nothing.
\<close>

theorem evaluate_tour_length_cyclic_sum:
  "((\<forall>x\<in>set tour. 0 \<le> x \<and> x < int (length cities)) \<longrightarrow>
      evaluate_tour_length tour cities = Inr (cyclic_tour_length tour cities)
      \<and> (length tour = 1 \<longrightarrow> evaluate_tour_length tour cities = Inr 0))
   \<and> evaluate_tour_length [] cities = Inr 0"
proof (intro conjI impI)
  assume h: "\<forall>x\<in>set tour. 0 \<le> x \<and> x < int (length cities)"
  then show e: "evaluate_tour_length tour cities = Inr (cyclic_tour_length tour cities)"
    by (rule evaluate_tour_length_sum)
  assume "length tour = 1"
  then obtain a where "tour = [a]" by (cases tour) auto
  then show "evaluate_tour_length tour cities = Inr 0"
    using e by (simp add: cyclic_tour_length_single)
next
  show "evaluate_tour_length [] cities = Inr 0"
    by (simp add: evaluate_tour_length_def)
qed

theorem evaluate_tour_length_cyclic_sum_witness:
  "evaluate_tour_length [0, 1] [(0, 0), (2, 0)] = Inr 4
   \<and> cyclic_tour_length [0, 1] [(0, 0), (2, 0)] = 4
   \<and> evaluate_tour_length [1] [(0, 0), (2, 0)] = Inr 0"
proof -
  have h: "\<forall>x\<in>set [0, 1 :: int]. 0 \<le> x \<and> x < int (length [(0, 0), (2, 0) :: city])" by simp
  have h1: "\<forall>x\<in>set [1 :: int]. 0 \<le> x \<and> x < int (length [(0, 0), (2, 0) :: city])" by simp
  have c: "cyclic_tour_length [0, 1] [(0, 0), (2, 0)] = 4"
    by (simp add: cyclic_tour_length_def distance_between_def lessThan_Suc eval_nat_numeral)
  show ?thesis
    using evaluate_tour_length_cyclic_sum [of "[0, 1]" "[(0, 0), (2, 0)]"]
          evaluate_tour_length_cyclic_sum [of "[1]" "[(0, 0), (2, 0)]"] h h1 c
    by (simp add: cyclic_tour_length_single)
qed
section \<open>The solver loop\<close>

lemma iteration_body_best:
  assumes "iteration_body ops cities n sched mt k st = Inr (Next st')"
  shows "(best_tour st' = best_tour st \<and> best_distance st' = best_distance st)
         \<or> (current_distance st' < best_distance st \<and> best_tour st' = current_tour st'
             \<and> best_distance st' = current_distance st')"
  using assms
  by (auto simp add: iteration_body_def Let_def split_beta py_randint_def
        split: if_splits sum.splits prod.splits)

lemma iteration_body_le:
  assumes "iteration_body ops cities n sched mt k st = Inr (Next st')"
  shows "best_distance st' \<le> best_distance st"
  using iteration_body_best [OF assms] by auto

lemma anneal_trace_sorted:
  "sorted_wrt (\<lambda>a b. best_distance b \<le> best_distance a)
     (st # anneal_trace ops cities n sched mt ks st)"
proof -
  have chain: "successively (\<lambda>a b. best_distance b \<le> best_distance a)
     (st # anneal_trace ops cities n sched mt ks st)" for st
  proof (induction ks arbitrary: st)
    case Nil
    then show ?case by simp
  next
    case (Cons k ks)
    show ?case
    proof (cases "iteration_body ops cities n sched mt k st")
      case (Inl e)
      then show ?thesis by simp
    next
      case (Inr step)
      then show ?thesis
      proof (cases step)
        case Break
        then show ?thesis using Inr by simp
      next
        case (Next st')
        then have "iteration_body ops cities n sched mt k st = Inr (Next st')" using Inr by simp
        from iteration_body_le [OF this] Cons.IH [of st'] Inr Next
        show ?thesis by simp
      qed
    qed
  qed
  have "transp (\<lambda>a b :: 'a solver_state. best_distance b \<le> best_distance a)"
    by (auto simp add: transp_def)
  then show ?thesis using chain [of st]
    by (simp only: successively_conv_sorted_wrt)
qed

lemma anneal_loop_last:
  assumes "anneal_loop ops cities n sched mt ks bound st = Inr (b, st')"
  shows "st' = last (st # anneal_trace ops cities n sched mt ks st)"
  using assms
proof (induction ks arbitrary: st bound)
  case Nil
  then show ?case by simp
next
  case (Cons k ks)
  show ?case
  proof (cases "iteration_body ops cities n sched mt k st")
    case (Inl e)
    then show ?thesis using Cons.prems by simp
  next
    case (Inr step)
    then show ?thesis
    proof (cases step)
      case Break
      then show ?thesis using Inr Cons.prems by simp
    next
      case (Next st1)
      then have "anneal_loop ops cities n sched mt ks (Some k) st1 = Inr (b, st')"
        using Inr Cons.prems by simp
      from Cons.IH [OF this] show ?thesis using Inr Next by simp
    qed
  qed
qed

lemma anneal_loop_best_le:
  assumes "anneal_loop ops cities n sched mt ks bound st = Inr (b, st')"
  shows "best_distance st' \<le> best_distance st"
proof -
  have l: "st' = last (st # anneal_trace ops cities n sched mt ks st)"
    using assms by (rule anneal_loop_last)
  have "sorted_wrt (\<lambda>a b. best_distance b \<le> best_distance a)
          (st # anneal_trace ops cities n sched mt ks st)"
    by (rule anneal_trace_sorted)
  then have "\<forall>y\<in>set (anneal_trace ops cities n sched mt ks st).
               best_distance y \<le> best_distance st"
    by simp
  then show ?thesis using l by (auto simp add: last_ConsR split: if_splits)
qed

lemma solve_best_cost:
  assumes "solve ops cities sched mi mt g = Inr r"
  shows "\<exists>st0. initial_state ops cities g = Inr st0
           \<and> best_cost r = best_distance
                (last (st0 # anneal_trace ops cities (length cities) sched mt [0..<nat mi] st0))
           \<and> best_cost r \<le> best_distance st0"
proof -
  from assms obtain st0 where i: "initial_state ops cities g = Inr st0"
    by (auto simp add: solve_def split: sum.splits)
  from assms i obtain k st' where
    l: "anneal_loop ops cities (length cities) sched mt [0..<nat mi] None st0 = Inr (Some k, st')"
    and r: "best_cost r = best_distance st'"
    by (auto simp add: solve_def split: sum.splits option.splits)
  from anneal_loop_last [OF l] anneal_loop_best_le [OF l] i r
  show ?thesis by simp
qed

subsection \<open>A run on four cities\<close>

lemma sqrt_nine: "sqrt 9 = 3"
  using real_sqrt_abs [of 3] by simp

lemma line_tour_lengths:
  "evaluate_tour_length [0, 1, 2, 3] line_cities = Inr 8"
  "evaluate_tour_length [0, 2, 1, 3] line_cities = Inr 6"
  by (simp_all add: evaluate_tour_length_def line_cities_def py_getitem_def
        distance_between_def upt_rec sqrt_nine)

lemma line_step:
  "iteration_body tape_rng line_cities 4 (LinearSchedule 1000 (1 / 5)) (1 / 100000000) 0
     \<lparr> current_tour = [0, 1, 2, 3], current_distance = 8,
       best_tour = [0, 1, 2, 3], best_distance = 8, rng_state = [5, 6] \<rparr>
   = Inr (Next \<lparr> current_tour = [0, 2, 1, 3], current_distance = 6,
                 best_tour = [0, 2, 1, 3], best_distance = 6, rng_state = [] \<rparr>)"
  by (simp add: iteration_body_def py_float_of_nat_small py_randint_def tape_rng_simps
        generate_two_opt_neighbor_def py_slice_def slice_bound_def line_tour_lengths
        metropolis_acceptance_def Let_def)

lemma line_step_idle:
  "iteration_body tape_rng line_cities 4 (LinearSchedule 1000 (1 / 5)) (1 / 100000000) (Suc 0)
     \<lparr> current_tour = [0, 2, 1, 3], current_distance = 6,
       best_tour = [0, 2, 1, 3], best_distance = 6, rng_state = [] \<rparr>
   = Inr (Next \<lparr> current_tour = [0, 2, 1, 3], current_distance = 6,
                 best_tour = [0, 2, 1, 3], best_distance = 6, rng_state = [] \<rparr>)"
  by (simp add: iteration_body_def py_float_of_nat_small py_randint_def tape_rng_simps)

lemma line_initial_state:
  "initial_state tape_rng line_cities [5, 6] =
      Inr \<lparr> current_tour = [0, 1, 2, 3], current_distance = 8,
       best_tour = [0, 1, 2, 3], best_distance = 8, rng_state = [5, 6] \<rparr>"
proof -
  have "map int [0..<length line_cities] = [0, 1, 2, 3]"
    by (simp add: line_cities_def upt_rec)
  then show ?thesis
    by (simp add: initial_state_def tape_rng_simps line_tour_lengths)
qed

lemma line_solve:
  "solve tape_rng line_cities (LinearSchedule 1000 (1 / 5)) 2 (1 / 100000000) [5, 6]
   = Inr \<lparr> best_route = [0, 2, 1, 3], best_cost = 6, iterations_performed = 2, final_rng = [] \<rparr>"
proof -
  have l: "length line_cities = 4" by (simp add: line_cities_def)
  show ?thesis
    by (simp add: solve_def line_initial_state l line_step line_step_idle upt_rec)
qed

subsection \<open>The best cost over a run\<close>

text \<open>
  C4: an iteration that runs to its end leaves a best cost that is at most the one
  before, and it either keeps the best tour and best cost or, when the new current cost
  is strictly below the best cost so far, replaces both by the current tour and cost.
  So the best costs recorded after each iteration of a run never increase, the loop
  ends in the last of these states, and the cost \<open>solve\<close> returns is at most that of
  the initial tour.
\<close>

theorem best_cost_non_increasing:
  "(iteration_body ops cities n sched mt k st = Inr (Next st') \<longrightarrow>
      best_distance st' \<le> best_distance st
      \<and> ((best_tour st' = best_tour st \<and> best_distance st' = best_distance st)
         \<or> (current_distance st' < best_distance st \<and> best_tour st' = current_tour st'
             \<and> best_distance st' = current_distance st')))
   \<and> sorted_wrt (\<lambda>a b. best_distance b \<le> best_distance a)
        (st # anneal_trace ops cities n sched mt ks st)
   \<and> (anneal_loop ops cities n sched mt ks bound st = Inr (b, st_end) \<longrightarrow>
        st_end = last (st # anneal_trace ops cities n sched mt ks st)
        \<and> best_distance st_end \<le> best_distance st)
   \<and> (solve ops cities sched mi mt g = Inr r \<longrightarrow>
        (\<exists>st0. initial_state ops cities g = Inr st0
           \<and> best_cost r = best_distance
                (last (st0 # anneal_trace ops cities (length cities) sched mt [0..<nat mi] st0))
           \<and> best_cost r \<le> best_distance st0))"
  using iteration_body_best [of ops cities n sched mt k st st']
        iteration_body_le [of ops cities n sched mt k st st']
        anneal_trace_sorted [of st ops cities n sched mt ks]
        anneal_loop_last [of ops cities n sched mt ks bound st b st_end]
        anneal_loop_best_le [of ops cities n sched mt ks bound st b st_end]
        solve_best_cost [of ops cities sched mi mt g r]
  by blast

theorem best_cost_non_increasing_witness:
  "iteration_body tape_rng line_cities 4 (LinearSchedule 1000 (1 / 5)) (1 / 100000000) 0
     \<lparr> current_tour = [0, 1, 2, 3], current_distance = 8,
       best_tour = [0, 1, 2, 3], best_distance = 8, rng_state = [5, 6] \<rparr>
   = Inr (Next \<lparr> current_tour = [0, 2, 1, 3], current_distance = 6,
                 best_tour = [0, 2, 1, 3], best_distance = 6, rng_state = [] \<rparr>)
   \<and> (6 :: real) \<le> 8
   \<and> solve tape_rng line_cities (LinearSchedule 1000 (1 / 5)) 2 (1 / 100000000) [5, 6]
       = Inr \<lparr> best_route = [0, 2, 1, 3], best_cost = 6, iterations_performed = 2,
               final_rng = [] \<rparr>
   \<and> (\<exists>st0. initial_state tape_rng line_cities [5, 6] = Inr st0 \<and> 6 \<le> best_distance st0)"
  using best_cost_non_increasing [of tape_rng line_cities 4 "LinearSchedule 1000 (1 / 5)"
          "1 / 100000000" 0
          "\<lparr> current_tour = [0, 1, 2, 3], current_distance = 8,
             best_tour = [0, 1, 2, 3], best_distance = 8, rng_state = [5, 6] \<rparr>"
          "\<lparr> current_tour = [0, 2, 1, 3], current_distance = 6,
             best_tour = [0, 2, 1, 3], best_distance = 6, rng_state = [] \<rparr>"
          "[]" None _ _ 2 "[5, 6]"
          "\<lparr> best_route = [0, 2, 1, 3], best_cost = 6, iterations_performed = 2,
             final_rng = [] \<rparr>"]
        line_step line_solve
  by auto
section \<open>Fewer than two cities\<close>

lemma shuffle_short:
  assumes "rng_spec ops"
  shows "fst (shuffle_fn ops g []) = []" and "fst (shuffle_fn ops g [x]) = [x]"
proof -
  have m: "mset (fst (shuffle_fn ops g xs)) = mset xs" for xs
    using assms by (simp add: rng_spec_def)
  from m [of "[]"] show "fst (shuffle_fn ops g []) = []" by simp
  from m [of "[x]"] show "fst (shuffle_fn ops g [x]) = [x]" by simp
qed

lemma randint_point:
  assumes "rng_spec ops"
  shows "fst (randint_fn ops g a a) = a"
proof -
  have "a \<le> fst (randint_fn ops g a a) \<and> fst (randint_fn ops g a a) \<le> a"
    using assms by (simp add: rng_spec_def)
  then show ?thesis by simp
qed

lemma initial_state_no_city:
  assumes "rng_spec ops"
  shows "initial_state ops [] g =
           Inr \<lparr> current_tour = [], current_distance = 0, best_tour = [], best_distance = 0,
                 rng_state = snd (shuffle_fn ops g []) \<rparr>"
  using shuffle_short(1) [OF assms, of g]
  by (simp add: initial_state_def split_beta evaluate_tour_length_def)

lemma initial_state_one_city:
  assumes "rng_spec ops"
  shows "initial_state ops [c] g =
           Inr \<lparr> current_tour = [0], current_distance = 0, best_tour = [0], best_distance = 0,
                 rng_state = snd (shuffle_fn ops g [0]) \<rparr>"
  using shuffle_short(2) [OF assms, of g 0]
  by (simp add: initial_state_def split_beta evaluate_tour_length_def py_getitem_def
        distance_between_def)

text \<open>With one city a pass that is neither stopped nor raising draws twice and is skipped.\<close>

lemma iteration_body_one_city:
  assumes "rng_spec ops"
  shows "iteration_body ops cities (Suc 0) sched mt k st =
           (case temperature_at_iteration sched k of
              Inl e \<Rightarrow> Inl e
            | Inr T \<Rightarrow>
                if T < mt then Inr Break
                else Inr (Next (st\<lparr>rng_state := two_draws ops 0 (rng_state st)\<rparr>)))"
  using randint_point [OF assms, of _ 0]
  by (simp add: iteration_body_def py_randint_def two_draws_def split_beta Let_def
        split: sum.splits)

lemma iteration_body_no_city:
  "iteration_body ops cities 0 sched mt k st =
     (case temperature_at_iteration sched k of
        Inl e \<Rightarrow> Inl e
      | Inr T \<Rightarrow> if T < mt then Inr Break else Inl ValueError)"
  by (simp add: iteration_body_def py_randint_def split: sum.splits)

text \<open>
  The loop with one city, over iterations \<open>xs\<close> whose temperatures are all returned and
  not below the minimum: each draws twice and nothing else changes.
\<close>

lemma anneal_loop_one_city_warm:
  assumes "rng_spec ops"
      and "\<forall>j\<in>set xs. \<exists>T. temperature_at_iteration sched j = Inr T \<and> \<not> T < mt"
  shows "anneal_loop ops cities (Suc 0) sched mt (xs @ ys) bound st =
           anneal_loop ops cities (Suc 0) sched mt ys
             (if xs = [] then bound else Some (last xs))
             (st\<lparr>rng_state := (two_draws ops 0 ^^ length xs) (rng_state st)\<rparr>)"
  using assms(2)
proof (induction xs arbitrary: bound st)
  case Nil
  then show ?case by simp
next
  case (Cons x xs)
  from Cons.prems obtain T where T: "temperature_at_iteration sched x = Inr T" "\<not> T < mt"
    by auto
  from Cons.prems have rest: "\<forall>j\<in>set xs. \<exists>T. temperature_at_iteration sched j = Inr T \<and> \<not> T < mt"
    by simp
  let ?nxt = "st\<lparr>rng_state := two_draws ops 0 (rng_state st)\<rparr>"
  have "anneal_loop ops cities (Suc 0) sched mt ((x # xs) @ ys) bound st =
        anneal_loop ops cities (Suc 0) sched mt (xs @ ys) (Some x) ?nxt"
    using T by (simp add: iteration_body_one_city [OF assms(1)])
  also have "\<dots> = anneal_loop ops cities (Suc 0) sched mt ys
             (if xs = [] then Some x else Some (last xs))
             (?nxt\<lparr>rng_state := (two_draws ops 0 ^^ length xs) (rng_state ?nxt)\<rparr>)"
    using rest by (rule Cons.IH)
  also have "(if xs = [] then Some x else Some (last xs)) =
             (if x # xs = [] then bound else Some (last (x # xs)))"
    by simp
  also have "?nxt\<lparr>rng_state := (two_draws ops 0 ^^ length xs) (rng_state ?nxt)\<rparr> =
             st\<lparr>rng_state := (two_draws ops 0 ^^ length (x # xs)) (rng_state st)\<rparr>"
    by (simp add: funpow_swap1)
  finally show ?case .
qed

lemma solve_one_city_warm:
  assumes "rng_spec ops" and "1 \<le> max_iterations"
      and "\<forall>j<nat max_iterations. \<exists>T. temperature_at_iteration sched j = Inr T \<and> \<not> T < mt"
  shows "solve ops [c] sched max_iterations mt g =
           Inr \<lparr> best_route = [0], best_cost = 0, iterations_performed = nat max_iterations,
                 final_rng = (two_draws ops 0 ^^ nat max_iterations)
                               (snd (shuffle_fn ops g [0])) \<rparr>"
proof -
  let ?m = "nat max_iterations"
  have ne: "[0..<?m] \<noteq> []" using assms(2) by simp
  have w: "\<forall>j\<in>set [0..<?m]. \<exists>T. temperature_at_iteration sched j = Inr T \<and> \<not> T < mt"
    using assms(3) by simp
  have l: "last [0..<?m] = ?m - 1" using ne by (simp add: last_upt)
  have "Suc (?m - 1) = ?m" using assms(2) by simp
  then show ?thesis
    using anneal_loop_one_city_warm [OF assms(1) w, of "[c]" "[]" None] ne l
    by (simp add: solve_def initial_state_one_city [OF assms(1)])
qed

lemma solve_one_city_event:
  assumes "rng_spec ops" and "k < nat max_iterations"
      and "\<forall>j<k. \<exists>T. temperature_at_iteration sched j = Inr T \<and> \<not> T < mt"
  shows "temperature_at_iteration sched k = Inl e \<Longrightarrow>
           solve ops [c] sched max_iterations mt g = Inl e"
    and "temperature_at_iteration sched k = Inr T \<Longrightarrow> T < mt \<Longrightarrow>
           solve ops [c] sched max_iterations mt g =
             Inr \<lparr> best_route = [0], best_cost = 0, iterations_performed = k + 1,
                   final_rng = (two_draws ops 0 ^^ k) (snd (shuffle_fn ops g [0])) \<rparr>"
proof -
  let ?m = "nat max_iterations"
  let ?init = "\<lparr> current_tour = [0], current_distance = 0, best_tour = [0], best_distance = 0,
                 rng_state = snd (shuffle_fn ops g [0]) \<rparr>"
  let ?cur = "?init\<lparr>rng_state := (two_draws ops 0 ^^ k) (rng_state ?init)\<rparr>"
  have split: "[0..<?m] = [0..<k] @ k # [Suc k..<?m]"
    using assms(2) by (metis less_imp_le_nat upt_add_eq_append upt_conv_Cons zero_le
        le_add_diff_inverse add_0)
  have w: "\<forall>j\<in>set [0..<k]. \<exists>T. temperature_at_iteration sched j = Inr T \<and> \<not> T < mt"
    using assms(3) by simp
  have loop: "anneal_loop ops [c] (Suc 0) sched mt [0..<?m] None ?init =
              anneal_loop ops [c] (Suc 0) sched mt (k # [Suc k..<?m])
                (if [0..<k] = [] then None else Some (last [0..<k])) ?cur"
    using anneal_loop_one_city_warm [OF assms(1) w, of "[c]" "k # [Suc k..<?m]" None ?init]
    by (simp only: split length_upt diff_zero)
  show "temperature_at_iteration sched k = Inl e \<Longrightarrow>
           solve ops [c] sched max_iterations mt g = Inl e"
    using loop
    by (simp add: solve_def initial_state_one_city [OF assms(1)]
          iteration_body_one_city [OF assms(1)])
  show "temperature_at_iteration sched k = Inr T \<Longrightarrow> T < mt \<Longrightarrow>
           solve ops [c] sched max_iterations mt g =
             Inr \<lparr> best_route = [0], best_cost = 0, iterations_performed = k + 1,
                   final_rng = (two_draws ops 0 ^^ k) (snd (shuffle_fn ops g [0])) \<rparr>"
    using loop
    by (simp add: solve_def initial_state_one_city [OF assms(1)]
          iteration_body_one_city [OF assms(1)])
qed

lemma solve_no_city:
  assumes "rng_spec ops" and "1 \<le> max_iterations"
  shows "solve ops [] sched max_iterations mt g =
           (case temperature_at_iteration sched 0 of
              Inl e \<Rightarrow> Inl e
            | Inr T \<Rightarrow>
                if T < mt
                then Inr \<lparr> best_route = [], best_cost = 0, iterations_performed = 1,
                           final_rng = snd (shuffle_fn ops g []) \<rparr>
                else Inl ValueError)"
proof -
  have "[0..<nat max_iterations] = 0 # [1..<nat max_iterations]"
    using assms(2) by (simp add: upt_rec)
  then show ?thesis
    by (simp add: solve_def initial_state_no_city [OF assms(1)] iteration_body_no_city
          split: sum.splits)
qed


text \<open>
  C6, as stated, fails: with one city the solver returns normally and records three
  iterations out of three, not zero; with no city and a schedule already below the
  minimum temperature it returns the empty tour instead of raising.
\<close>

theorem solve_few_cities_counterexample:
  "solve tape_rng [(0, 0)] (LinearSchedule 1000 (1 / 5)) 3 (1 / 100000000) []
     = Inr \<lparr> best_route = [0], best_cost = 0, iterations_performed = 3, final_rng = [] \<rparr>
   \<and> solve tape_rng [] (LinearSchedule 1000 (1 / 5)) 3 2000 []
     = Inr \<lparr> best_route = [], best_cost = 0, iterations_performed = 1, final_rng = [] \<rparr>"
  by (simp add: solve_def initial_state_def tape_rng_simps evaluate_tour_length_def
        py_getitem_def distance_between_def iteration_body_def py_float_of_nat_small
        py_randint_def upt_rec)

text \<open>
  C6, amended: the solver does not check the number of cities and signals no error of
  its own. With one city and at least one iteration allowed, every pass of the loop that
  is neither stopped by a low temperature nor raising in the schedule draws the index 0
  twice and is skipped: nothing changes but the generator, by those two draws, and no
  move is generated. If the temperature never falls below the minimum, the solver
  returns the tour \<open>[0]\<close> with best cost 0.0, \<open>max_iterations\<close> iterations recorded and
  two draws made in each. If it first falls below the minimum at iteration \<open>k\<close>, the
  solver returns the same tour and cost with \<open>k + 1\<close> iterations recorded and two draws
  made in each of the \<open>k\<close> passes before. If the schedule raises at an iteration that is
  reached, the solver raises that error. With no city it raises what the schedule raises
  at iteration 0, or returns the empty tour with cost 0.0 and one iteration recorded when
  that temperature is below the minimum, and otherwise raises \<open>ValueError\<close> from the draw
  on an empty range.
\<close>

theorem solve_few_cities:
  assumes "rng_spec ops" and "1 \<le> max_iterations"
  shows "iteration_body ops cities 1 sched mt k st =
           (case temperature_at_iteration sched k of
              Inl e \<Rightarrow> Inl e
            | Inr T \<Rightarrow>
                if T < mt then Inr Break
                else Inr (Next (st\<lparr>rng_state := two_draws ops 0 (rng_state st)\<rparr>)))
         \<and> ((\<forall>j<nat max_iterations.
                \<exists>T. temperature_at_iteration sched j = Inr T \<and> \<not> T < mt) \<longrightarrow>
              solve ops [c] sched max_iterations mt g =
                Inr \<lparr> best_route = [0], best_cost = 0,
                      iterations_performed = nat max_iterations,
                      final_rng = (two_draws ops 0 ^^ nat max_iterations)
                                    (snd (shuffle_fn ops g [0])) \<rparr>)
         \<and> (k < nat max_iterations
              \<and> (\<forall>j<k. \<exists>T. temperature_at_iteration sched j = Inr T \<and> \<not> T < mt)
              \<and> temperature_at_iteration sched k = Inr T' \<and> T' < mt \<longrightarrow>
              solve ops [c] sched max_iterations mt g =
                Inr \<lparr> best_route = [0], best_cost = 0, iterations_performed = k + 1,
                      final_rng = (two_draws ops 0 ^^ k) (snd (shuffle_fn ops g [0])) \<rparr>)
         \<and> (k < nat max_iterations
              \<and> (\<forall>j<k. \<exists>T. temperature_at_iteration sched j = Inr T \<and> \<not> T < mt)
              \<and> temperature_at_iteration sched k = Inl e \<longrightarrow>
              solve ops [c] sched max_iterations mt g = Inl e)
         \<and> solve ops [] sched max_iterations mt g =
             (case temperature_at_iteration sched 0 of
                Inl e \<Rightarrow> Inl e
              | Inr T \<Rightarrow>
                  if T < mt
                  then Inr \<lparr> best_route = [], best_cost = 0, iterations_performed = 1,
                             final_rng = snd (shuffle_fn ops g []) \<rparr>
                  else Inl ValueError)"
proof (intro conjI impI)
  show "iteration_body ops cities 1 sched mt k st =
           (case temperature_at_iteration sched k of
              Inl e \<Rightarrow> Inl e
            | Inr T \<Rightarrow>
                if T < mt then Inr Break
                else Inr (Next (st\<lparr>rng_state := two_draws ops 0 (rng_state st)\<rparr>)))"
    using iteration_body_one_city [OF assms(1), of cities sched mt k st] by simp
next
  assume "\<forall>j<nat max_iterations. \<exists>T. temperature_at_iteration sched j = Inr T \<and> \<not> T < mt"
  with assms show "solve ops [c] sched max_iterations mt g =
                Inr \<lparr> best_route = [0], best_cost = 0,
                      iterations_performed = nat max_iterations,
                      final_rng = (two_draws ops 0 ^^ nat max_iterations)
                                    (snd (shuffle_fn ops g [0])) \<rparr>"
    by (rule solve_one_city_warm)
next
  assume h: "k < nat max_iterations
              \<and> (\<forall>j<k. \<exists>T. temperature_at_iteration sched j = Inr T \<and> \<not> T < mt)
              \<and> temperature_at_iteration sched k = Inr T' \<and> T' < mt"
  then have a: "k < nat max_iterations"
    and b: "\<forall>j<k. \<exists>T. temperature_at_iteration sched j = Inr T \<and> \<not> T < mt"
    and c: "temperature_at_iteration sched k = Inr T'" and d: "T' < mt"
    by simp_all
  from solve_one_city_event(2) [OF assms(1) a b c d]
  show "solve ops [c] sched max_iterations mt g =
                Inr \<lparr> best_route = [0], best_cost = 0, iterations_performed = k + 1,
                      final_rng = (two_draws ops 0 ^^ k) (snd (shuffle_fn ops g [0])) \<rparr>" .
next
  assume h: "k < nat max_iterations
              \<and> (\<forall>j<k. \<exists>T. temperature_at_iteration sched j = Inr T \<and> \<not> T < mt)
              \<and> temperature_at_iteration sched k = Inl e"
  then have a: "k < nat max_iterations"
    and b: "\<forall>j<k. \<exists>T. temperature_at_iteration sched j = Inr T \<and> \<not> T < mt"
    and c: "temperature_at_iteration sched k = Inl e"
    by simp_all
  from solve_one_city_event(1) [OF assms(1) a b c]
  show "solve ops [c] sched max_iterations mt g = Inl e" .
next
  from assms show "solve ops [] sched max_iterations mt g =
             (case temperature_at_iteration sched 0 of
                Inl e \<Rightarrow> Inl e
              | Inr T \<Rightarrow>
                  if T < mt
                  then Inr \<lparr> best_route = [], best_cost = 0, iterations_performed = 1,
                             final_rng = snd (shuffle_fn ops g []) \<rparr>
                  else Inl ValueError)"
    by (rule solve_no_city)
qed

lemma doubling_schedule_warm:
  assumes "j < 1024"
  shows "temperature_at_iteration (ExponentialSchedule 1000 2) j = Inr (1000 * 2 ^ j)"
    and "\<not> 1000 * (2 :: real) ^ j < 1 / 100000000"
proof -
  have "(2 :: real) ^ j \<le> 2 ^ 1023" using assms by (intro power_increasing) simp_all
  also have "(2 :: real) ^ 1023 < float_overflow_bound"
    by (simp add: float_overflow_bound_def)
  finally have "\<bar>(2 :: real) ^ j\<bar> < float_overflow_bound" by simp
  then show "temperature_at_iteration (ExponentialSchedule 1000 2) j = Inr (1000 * 2 ^ j)"
    by (simp add: py_float_pow_def)
  have "(1 :: real) \<le> 2 ^ j" by (rule one_le_power) simp
  then show "\<not> 1000 * (2 :: real) ^ j < 1 / 100000000" by linarith
qed

theorem solve_few_cities_witness:
  "rng_spec tape_rng \<and> (1 :: int) \<le> 5000
   \<and> solve tape_rng [(0, 0)] (LinearSchedule 1000 (1 / 5)) 5000 (1 / 100000000) [7, 8, 9]
       = Inr \<lparr> best_route = [0], best_cost = 0, iterations_performed = 5000,
               final_rng = (two_draws tape_rng 0 ^^ 5000) [7, 8, 9] \<rparr>
   \<and> solve tape_rng [(0, 0)] (LinearSchedule 1000 (1 / 5)) 5000 900 [7, 8, 9, 10, 11]
       = Inr \<lparr> best_route = [0], best_cost = 0, iterations_performed = 502,
               final_rng = (two_draws tape_rng 0 ^^ 501) [7, 8, 9, 10, 11] \<rparr>
   \<and> solve tape_rng [(0, 0)] (ExponentialSchedule 1000 2) 5000 (1 / 100000000) []
       = Inl OverflowError
   \<and> solve tape_rng [] (LinearSchedule 1000 (1 / 5)) 5000 (1 / 100000000) [] = Inl ValueError
   \<and> iteration_body tape_rng [(0, 0)] 1 (LinearSchedule 1000 (1 / 5)) (1 / 100000000) 0
        \<lparr> current_tour = [0], current_distance = 0, best_tour = [0], best_distance = 0,
          rng_state = [7, 8, 9] \<rparr>
       = Inr (Next \<lparr> current_tour = [0], current_distance = 0, best_tour = [0],
                     best_distance = 0, rng_state = [9] \<rparr>)"
proof -
  have m: "(1 :: int) \<le> 5000" by simp
  note inst = solve_few_cities [OF tape_rng_spec m]
  have lin: "temperature_at_iteration (LinearSchedule 1000 (1 / 5)) j
               = Inr (max 0 (1000 - 1 / 5 * real j))" if "j \<le> 5000" for j
    using that by (intro linear_temperature_small) simp
  have warm: "\<forall>j<nat 5000. \<exists>T. temperature_at_iteration (LinearSchedule 1000 (1 / 5)) j = Inr T
                \<and> \<not> T < 1 / 100000000"
  proof (intro allI impI)
    fix j :: nat assume "j < nat 5000"
    then have j: "j \<le> 4999" by simp
    then have "real j \<le> 4999" by (metis of_nat_le_iff of_nat_numeral)
    then have "\<not> max 0 (1000 - 1 / 5 * real j) < 1 / 100000000" by simp
    then show "\<exists>T. temperature_at_iteration (LinearSchedule 1000 (1 / 5)) j = Inr T
                \<and> \<not> T < 1 / 100000000"
      using lin [of j] j by simp
  qed
  have warm900: "\<forall>j<501. \<exists>T. temperature_at_iteration (LinearSchedule 1000 (1 / 5)) j = Inr T
                \<and> \<not> T < 900"
  proof (intro allI impI)
    fix j :: nat assume "j < 501"
    then have j: "j \<le> 500" by simp
    then have "real j \<le> 500" by (metis of_nat_le_iff of_nat_numeral)
    then have "\<not> max 0 (1000 - 1 / 5 * real j) < 900" by simp
    then show "\<exists>T. temperature_at_iteration (LinearSchedule 1000 (1 / 5)) j = Inr T
                \<and> \<not> T < 900"
      using lin [of j] j by simp
  qed
  have cold900: "temperature_at_iteration (LinearSchedule 1000 (1 / 5)) 501 = Inr (4499 / 5)"
                "(4499 / 5 :: real) < 900"
    using lin [of 501] by simp_all
  have dwarm: "\<forall>j<1024. \<exists>T. temperature_at_iteration (ExponentialSchedule 1000 2) j = Inr T
                \<and> \<not> T < 1 / 100000000"
    using doubling_schedule_warm by blast
  have dover: "temperature_at_iteration (ExponentialSchedule 1000 2) 1024 = Inl OverflowError"
    by (simp add: py_float_pow_def float_overflow_bound_def)
  have t0: "temperature_at_iteration (LinearSchedule 1000 (1 / 5)) 0 = Inr 1000"
    using lin [of 0] by simp
  have a: "solve tape_rng [(0, 0)] (LinearSchedule 1000 (1 / 5)) 5000 (1 / 100000000) [7, 8, 9]
       = Inr \<lparr> best_route = [0], best_cost = 0, iterations_performed = 5000,
               final_rng = (two_draws tape_rng 0 ^^ 5000) [7, 8, 9] \<rparr>"
    using inst [of "[(0, 0)]" "LinearSchedule 1000 (1 / 5)" "1 / 100000000" 0 _ "(0, 0)" "[7, 8, 9]"]
          warm
    by (simp add: tape_rng_simps)
  have b: "solve tape_rng [(0, 0)] (LinearSchedule 1000 (1 / 5)) 5000 900 [7, 8, 9, 10, 11]
       = Inr \<lparr> best_route = [0], best_cost = 0, iterations_performed = 502,
               final_rng = (two_draws tape_rng 0 ^^ 501) [7, 8, 9, 10, 11] \<rparr>"
    using inst [of "[(0, 0)]" "LinearSchedule 1000 (1 / 5)" 900 501 _ "(0, 0)"
                  "[7, 8, 9, 10, 11]" "4499 / 5"]
          warm900 cold900
    by (simp add: tape_rng_simps)
  have c: "solve tape_rng [(0, 0)] (ExponentialSchedule 1000 2) 5000 (1 / 100000000) []
       = Inl OverflowError"
    using inst [of "[(0, 0)]" "ExponentialSchedule 1000 2" "1 / 100000000" 1024 _ "(0, 0)" "[]"
                  _ OverflowError]
          dwarm dover
    by simp
  have d: "solve tape_rng [] (LinearSchedule 1000 (1 / 5)) 5000 (1 / 100000000) [] = Inl ValueError"
    using inst [of "[]" "LinearSchedule 1000 (1 / 5)" "1 / 100000000" 0 _ "(0, 0)" "[]"] t0
    by simp
  have e: "iteration_body tape_rng [(0, 0)] 1 (LinearSchedule 1000 (1 / 5)) (1 / 100000000) 0
        \<lparr> current_tour = [0], current_distance = 0, best_tour = [0], best_distance = 0,
          rng_state = [7, 8, 9] \<rparr>
       = Inr (Next \<lparr> current_tour = [0], current_distance = 0, best_tour = [0],
                     best_distance = 0, rng_state = [9] \<rparr>)"
    using inst [of "[(0, 0)]" "LinearSchedule 1000 (1 / 5)" "1 / 100000000" 0
                 "\<lparr> current_tour = [0], current_distance = 0, best_tour = [0],
                    best_distance = 0, rng_state = [7, 8, 9] \<rparr>" "(0, 0)" "[]"] t0
    by (simp add: two_draws_def tape_rng_simps)
  from tape_rng_spec m a b c d e show ?thesis by simp
qed
section \<open>Reproducible runs\<close>

lemma rng_equiv_randint:
  assumes "rng_equiv R ops1 ops2" and "R g h"
  shows "fst (randint_fn ops1 g a b) = fst (randint_fn ops2 h a b)"
    and "R (snd (randint_fn ops1 g a b)) (snd (randint_fn ops2 h a b))"
  using assms by (simp_all add: rng_equiv_def)

lemma rng_equiv_random:
  assumes "rng_equiv R ops1 ops2" and "R g h"
  shows "fst (random_fn ops1 g) = fst (random_fn ops2 h)"
    and "R (snd (random_fn ops1 g)) (snd (random_fn ops2 h))"
  using assms by (simp_all add: rng_equiv_def)

lemma rng_equiv_shuffle:
  assumes "rng_equiv R ops1 ops2" and "R g h"
  shows "fst (shuffle_fn ops1 g xs) = fst (shuffle_fn ops2 h xs)"
    and "R (snd (shuffle_fn ops1 g xs)) (snd (shuffle_fn ops2 h xs))"
  using assms by (simp_all add: rng_equiv_def)

lemma metropolis_acceptance_equiv:
  assumes "rng_equiv R ops1 ops2" and "R g h"
  shows "fst (metropolis_acceptance ops1 c c' T g) = fst (metropolis_acceptance ops2 c c' T h)"
    and "R (snd (metropolis_acceptance ops1 c c' T g)) (snd (metropolis_acceptance ops2 c c' T h))"
  using rng_equiv_random [OF assms] assms(2)
  by (simp_all add: metropolis_acceptance_def Let_def split_beta)

lemma iteration_body_equiv:
  assumes e: "rng_equiv R ops1 ops2" and s: "same_search_state R s t"
  shows "rel_sum (=) (rel_loop_step (same_search_state R))
           (iteration_body ops1 cities n sched mt k s)
           (iteration_body ops2 cities n sched mt k t)"
proof -
  from s have g0: "R (rng_state s) (rng_state t)"
    and eqs: "current_tour s = current_tour t" "current_distance s = current_distance t"
             "best_tour s = best_tour t" "best_distance s = best_distance t"
    by (simp_all add: same_search_state_def)
  let ?T = "temperature_at_iteration sched k"
  let ?hi = "int n - 1"
  let ?a1 = "randint_fn ops1 (rng_state s) 0 ?hi" and ?b1 = "randint_fn ops2 (rng_state t) 0 ?hi"
  let ?a2 = "randint_fn ops1 (snd ?a1) 0 ?hi" and ?b2 = "randint_fn ops2 (snd ?b1) 0 ?hi"
  have r1: "fst ?a1 = fst ?b1" and g1: "R (snd ?a1) (snd ?b1)"
    using rng_equiv_randint [OF e g0] by simp_all
  have r2: "fst ?a2 = fst ?b2" and g2: "R (snd ?a2) (snd ?b2)"
    using rng_equiv_randint [OF e g1] by simp_all
  have m: "fst (metropolis_acceptance ops1 c c' T (snd ?a2)) =
           fst (metropolis_acceptance ops2 c c' T (snd ?b2))"
          "R (snd (metropolis_acceptance ops1 c c' T (snd ?a2)))
             (snd (metropolis_acceptance ops2 c c' T (snd ?b2)))" for c c' T
    using metropolis_acceptance_equiv [OF e g2] by simp_all
  show ?thesis
    using r1 r2 g2 m eqs
    by (auto simp add: iteration_body_def py_randint_def Let_def split_beta
          same_search_state_def split: sum.splits)
qed

lemma anneal_loop_equiv:
  assumes e: "rng_equiv R ops1 ops2" and s: "same_search_state R s t"
  shows "rel_sum (=) (rel_prod (=) (same_search_state R))
           (anneal_loop ops1 cities n sched mt ks bound s)
           (anneal_loop ops2 cities n sched mt ks bound t)"
  using s
proof (induction ks arbitrary: bound s t)
  case Nil
  then show ?case by simp
next
  case (Cons k ks)
  have b: "rel_sum (=) (rel_loop_step (same_search_state R))
           (iteration_body ops1 cities n sched mt k s)
           (iteration_body ops2 cities n sched mt k t)"
    using e Cons.prems by (rule iteration_body_equiv)
  show ?case
  proof (cases "iteration_body ops1 cities n sched mt k s")
    case (Inl err)
    then show ?thesis using b by (cases "iteration_body ops2 cities n sched mt k t") simp_all
  next
    case (Inr step1)
    then obtain step2 where
      i2: "iteration_body ops2 cities n sched mt k t = Inr step2"
      and r: "rel_loop_step (same_search_state R) step1 step2"
      using b by (cases "iteration_body ops2 cities n sched mt k t") simp_all
    show ?thesis
    proof (cases step1)
      case Break
      then have "step2 = Break" using r by (cases step2) simp_all
      then show ?thesis using Inr i2 Break Cons.prems by simp
    next
      case (Next s')
      then obtain t' where t': "step2 = Next t'" "same_search_state R s' t'"
        using r by (cases step2) simp_all
      from Cons.IH [OF t'(2)] show ?thesis using Inr i2 Next t'(1) by simp
    qed
  qed
qed

lemma initial_state_equiv:
  assumes e: "rng_equiv R ops1 ops2" and g: "R g h"
  shows "rel_sum (=) (same_search_state R)
           (initial_state ops1 cities g) (initial_state ops2 cities h)"
  using rng_equiv_shuffle [OF e g, of "map int [0..<length cities]"]
  by (simp add: initial_state_def Let_def split_beta same_search_state_def split: sum.splits)

lemma solve_equiv:
  assumes e: "rng_equiv R ops1 ops2" and g: "R g h"
  shows "same_outcome R (solve ops1 cities sched mi mt g) (solve ops2 cities sched mi mt h)"
proof (cases "initial_state ops1 cities g")
  case (Inl err)
  then have "initial_state ops2 cities h = Inl err"
    using initial_state_equiv [OF e g, of cities]
    by (cases "initial_state ops2 cities h") simp_all
  then show ?thesis using Inl by (simp add: solve_def same_outcome_def)
next
  case (Inr s)
  then obtain t where t: "initial_state ops2 cities h = Inr t" "same_search_state R s t"
    using initial_state_equiv [OF e g, of cities]
    by (cases "initial_state ops2 cities h") simp_all
  let ?l1 = "anneal_loop ops1 cities (length cities) sched mt [0..<nat mi] None s"
  let ?l2 = "anneal_loop ops2 cities (length cities) sched mt [0..<nat mi] None t"
  have l: "rel_sum (=) (rel_prod (=) (same_search_state R)) ?l1 ?l2"
    using e t(2) by (rule anneal_loop_equiv)
  show ?thesis
  proof (cases ?l1)
    case (Inl err)
    then have "?l2 = Inl err" using l by (cases ?l2) simp_all
    then show ?thesis using Inl Inr t(1) by (simp add: solve_def same_outcome_def)
  next
    case (Inr p)
    obtain b s' where p: "p = (b, s')" by (cases p)
    from Inr p l obtain t' where t': "?l2 = Inr (b, t')" "same_search_state R s' t'"
      by (cases ?l2) auto
    show ?thesis
      using \<open>initial_state ops1 cities g = Inr s\<close> t(1) Inr p t'
      by (cases b) (simp_all add: solve_def same_outcome_def same_search_state_def)
  qed
qed

lemma rng_equiv_refl: "rng_equiv (=) ops ops"
  by (simp add: rng_equiv_def)

text \<open>
  C9: two runs of the solver on the same cities, schedule and parameters, whose
  generators start in states that give the same draws (in particular one generator
  started twice from the same seed), end alike: the same error, or the same best tour,
  best cost and iteration count, and generators that still give the same draws.
\<close>

theorem solve_reproducible:
  assumes "rng_equiv R ops1 ops2" and "R g h"
  shows "same_outcome R (solve ops1 cities sched max_iterations mt g)
                        (solve ops2 cities sched max_iterations mt h)"
  using assms by (rule solve_equiv)

theorem solve_reproducible_witness:
  "rng_equiv (=) tape_rng tape_rng
   \<and> same_outcome (=)
        (solve tape_rng line_cities (LinearSchedule 1000 (1 / 5)) 2 (1 / 100000000) [5, 6])
        (solve tape_rng line_cities (LinearSchedule 1000 (1 / 5)) 2 (1 / 100000000) [5, 6])
   \<and> solve tape_rng line_cities (LinearSchedule 1000 (1 / 5)) 2 (1 / 100000000) [5, 6]
       = Inr \<lparr> best_route = [0, 2, 1, 3], best_cost = 6, iterations_performed = 2,
               final_rng = [] \<rparr>"
proof -
  have e: "rng_equiv (=) tape_rng tape_rng" by (rule rng_equiv_refl)
  have g: "[5, 6 :: nat] = [5, 6]" by simp
  from solve_reproducible [OF e g, of line_cities "LinearSchedule 1000 (1 / 5)" 2
         "1 / 100000000"] e line_solve
  show ?thesis by simp
qed


end
